theory Spec2Isabelle
  imports Main "HOL-Library.Word"
begin

section \<open>Script values and handles\<close>

text \<open>
  A \<open>v8::Handle<v8::Value>\<close> is either empty (the default-constructed handle) or refers
  to a value of the scripting runtime. \<open>Persistent n\<close> is a handle to the persistent
  storage cell \<open>n\<close> (what \<open>v8::Persistent<v8::Value>\<close> wraps); the other constructors are
  the values the conversion functions build. \<open>Undefined\<close> is what an array slot that was
  never written reads as.
\<close>

datatype handle =
    Empty
  | Undefined
  | Persistent nat
  | Str string
  | Int32 "32 word"
  | Array "handle list"
  | Object "(handle \<times> handle) list"

text \<open>
  A native object identity is an address (\<open>T*\<close>, or \<open>void*\<close> in the global table); the
  template parameter \<open>T\<close> of \<open>object_registry<T>\<close> is a class identifier. The callback
  \<open>void (*destroy)(T*)\<close> is a nullable function pointer: \<open>None\<close> is the null pointer,
  \<open>Some f\<close> the function \<open>f\<close>.
\<close>

type_synonym addr = nat
type_synonym class_id = nat
type_synonym callback = nat

text \<open>
  What the registry does to the outside world is recorded in order: \<open>Dispose h\<close> is the call
  \<open>it->second.Dispose()\<close> on the stored handle \<open>h\<close>, \<open>Destroy f T object\<close> is the call
  \<open>destroy(object)\<close> of the callback \<open>f\<close> made by \<open>object_registry<T>\<close>. What the called
  function does to the registry is given by its code (below).
\<close>

datatype event = Dispose handle | Destroy callback class_id addr

section \<open>The tables\<close>

text \<open>
  \<open>boost::unordered_map<K, v8::Persistent<v8::Value>>\<close> is the list of its entries in
  iteration order, \<open>boost::unordered_set<T*>\<close> the list of its elements in iteration order.
  The place of a new entry in that order is fixed by the hash function; the model puts it
  last. Every statement below that depends on the order is proved for all tables, so for
  every order.
\<close>

type_synonym objects = "(addr \<times> handle) list"

text \<open>\<open>insert(std::make_pair(k, v))\<close>: stores the pair unless the key has an entry already.\<close>

definition map_insert :: "addr \<times> handle \<Rightarrow> objects \<Rightarrow> objects" where
  "map_insert p xs = (case map_of xs (fst p) of None \<Rightarrow> xs @ [p] | Some _ \<Rightarrow> xs)"

text \<open>\<open>erase(it)\<close> with \<open>it = find(k)\<close>: removes the one entry the iterator points to.\<close>

fun map_erase :: "addr \<Rightarrow> objects \<Rightarrow> objects" where
  "map_erase k [] = []"
| "map_erase k (p # xs) = (if fst p = k then xs else p # map_erase k xs)"

text \<open>\<open>unordered_set::insert(k)\<close> and \<open>unordered_set::erase(k)\<close> (erase by key).\<close>

definition set_insert :: "addr \<Rightarrow> addr list \<Rightarrow> addr list" where
  "set_insert k xs = (if k \<in> set xs then xs else xs @ [k])"

definition set_erase :: "addr \<Rightarrow> addr list \<Rightarrow> addr list" where
  "set_erase k xs = filter (\<lambda>x. x \<noteq> k) xs"

section \<open>The registry, one table per class (the default build)\<close>

record world =
  trace :: "event list"

text \<open>
  \<open>items s T\<close> is the function-local static \<open>items_\<close> of \<open>object_registry<T>::items()\<close>.
  The static member functions \<open>add\<close>, \<open>remove\<close>, \<open>remove_all\<close> and \<open>find\<close> of
  \<open>object_registry<T>\<close> are \<open>registry_add T\<close>, \<open>registry_remove T\<close>, \<open>registry_remove_all T\<close>
  and \<open>registry_find T\<close>; compiled with \<open>V8PP_USE_GLOBAL_OBJECTS_REGISTRY\<close> they are
  \<open>global_add T\<close>, \<open>global_remove T\<close>, \<open>global_remove_all T\<close> and \<open>global_find T\<close>.
\<close>

record registry = world +
  items :: "class_id \<Rightarrow> objects"

definition init :: registry where
  "init = \<lparr>trace = [], items = (\<lambda>T. [])\<rparr>"

text \<open>The two calls that reach outside the registry, as steps on the recorded trace.\<close>

definition dispose :: "handle \<Rightarrow> 'a world_scheme \<Rightarrow> 'a world_scheme" where
  "dispose h s = s\<lparr>trace := trace s @ [Dispose h]\<rparr>"

definition invoke :: "callback option \<Rightarrow> class_id \<Rightarrow> addr \<Rightarrow> 'a world_scheme \<Rightarrow> 'a world_scheme" where
  "invoke destroy T object s =
     (case destroy of None \<Rightarrow> s | Some f \<Rightarrow> s\<lparr>trace := trace s @ [Destroy f T object]\<rparr>)"

text \<open>
  A destroy function is arbitrary code: it may itself call \<open>add\<close>, \<open>remove\<close> or \<open>remove_all\<close>.
  Its code is what it does to the registry when it is called on an object and returns;
  \<open>code f\<close> is the code of the function \<open>f\<close>. \<open>quiet\<close> is the code of a function that leaves
  the registry alone. \<open>call\<close> is the statement \<open>if (destroy) destroy(object)\<close>: the call is
  recorded, then the code of the function runs. \<open>invoke\<close> is \<open>call\<close> for a function that
  leaves the registry alone.
\<close>

type_synonym 'r code = "callback \<Rightarrow> addr \<Rightarrow> 'r \<Rightarrow> 'r"

definition quiet :: "'r code" where
  "quiet f object s = s"

definition call ::
  "'a world_scheme code \<Rightarrow> callback option \<Rightarrow> class_id \<Rightarrow> addr \<Rightarrow> 'a world_scheme \<Rightarrow> 'a world_scheme" where
  "call code destroy T object s =
     (case destroy of
        None \<Rightarrow> s
      | Some f \<Rightarrow> code f object (s\<lparr>trace := trace s @ [Destroy f T object]\<rparr>))"

definition registry_add :: "class_id \<Rightarrow> addr \<Rightarrow> handle \<Rightarrow> registry \<Rightarrow> registry" where
  "registry_add T object v s = s\<lparr>items := (items s)(T := map_insert (object, v) (items s T))\<rparr>"

text \<open>\<open>items().erase(it)\<close> on the table of \<open>T\<close>.\<close>

definition erase_item :: "class_id \<Rightarrow> addr \<Rightarrow> registry \<Rightarrow> registry" where
  "erase_item T object s = s\<lparr>items := (items s)(T := map_erase object (items s T))\<rparr>"

definition registry_remove :: "class_id \<Rightarrow> addr \<Rightarrow> callback option \<Rightarrow> registry \<Rightarrow> registry" where
  "registry_remove T object destroy s =
     (case map_of (items s T) object of
        None \<Rightarrow> s
      | Some h \<Rightarrow> invoke destroy T object (erase_item T object (dispose h s)))"

definition registry_find :: "class_id \<Rightarrow> addr \<Rightarrow> registry \<Rightarrow> handle" where
  "registry_find T native s =
     (case map_of (items s T) native of None \<Rightarrow> Empty | Some h \<Rightarrow> h)"

text \<open>
  \<open>remove\<close> with the code of the destroy functions given; \<open>registry_remove\<close> is the case of
  a function that leaves the registry alone.
\<close>

definition registry_remove_calling ::
  "registry code \<Rightarrow> class_id \<Rightarrow> addr \<Rightarrow> callback option \<Rightarrow> registry \<Rightarrow> registry" where
  "registry_remove_calling code T object destroy s =
     (case map_of (items s T) object of
        None \<Rightarrow> s
      | Some h \<Rightarrow> call code destroy T object (erase_item T object (dispose h s)))"

text \<open>
  The loop \<open>while (!items().empty()) remove(items().begin()->first, destroy)\<close>. Each test
  reads the table as the last call of \<open>destroy\<close> left it, so the loop need not end: the
  result is \<open>None\<close> when it does not.
\<close>

partial_function (option) registry_remove_all ::
  "registry code \<Rightarrow> class_id \<Rightarrow> callback option \<Rightarrow> registry \<Rightarrow> registry option" where
  "registry_remove_all code T destroy s =
     (if items s T = [] then Some s
      else registry_remove_all code T destroy
             (registry_remove_calling code T (fst (hd (items s T))) destroy s))"

section \<open>The registry, one global table (\<open>V8PP_USE_GLOBAL_OBJECTS_REGISTRY\<close>)\<close>

text \<open>
  \<open>global_registry_objects\<close> is the one table \<open>global_registry_objects_\<close> that
  \<open>items()\<close> returns for every \<open>T\<close>; \<open>instances s T\<close> is the function-local static set of
  \<open>object_registry<T>::instances()\<close>.
\<close>

record global_registry = world +
  global_registry_objects :: objects
  instances :: "class_id \<Rightarrow> addr list"

definition global_init :: global_registry where
  "global_init = \<lparr>trace = [], global_registry_objects = [], instances = (\<lambda>T. [])\<rparr>"

definition global_add :: "class_id \<Rightarrow> addr \<Rightarrow> handle \<Rightarrow> global_registry \<Rightarrow> global_registry" where
  "global_add T object v s =
     s\<lparr>instances := (instances s)(T := set_insert object (instances s T)),
       global_registry_objects := map_insert (object, v) (global_registry_objects s)\<rparr>"

definition erase_instance :: "class_id \<Rightarrow> addr \<Rightarrow> global_registry \<Rightarrow> global_registry" where
  "erase_instance T object s = s\<lparr>instances := (instances s)(T := set_erase object (instances s T))\<rparr>"

definition global_erase_item :: "addr \<Rightarrow> global_registry \<Rightarrow> global_registry" where
  "global_erase_item object s =
     s\<lparr>global_registry_objects := map_erase object (global_registry_objects s)\<rparr>"

definition global_remove :: "class_id \<Rightarrow> addr \<Rightarrow> callback option \<Rightarrow> global_registry \<Rightarrow> global_registry" where
  "global_remove T object destroy s =
     (let s1 = erase_instance T object s in
      case map_of (global_registry_objects s1) object of
        None \<Rightarrow> s1
      | Some h \<Rightarrow> invoke destroy T object (global_erase_item object (dispose h s1)))"

definition global_find :: "class_id \<Rightarrow> addr \<Rightarrow> global_registry \<Rightarrow> handle" where
  "global_find T native s =
     (case map_of (global_registry_objects s) native of None \<Rightarrow> Empty | Some h \<Rightarrow> h)"

lemma instances_global_remove:
  "instances (global_remove T object destroy s) = (instances s)(T := set_erase object (instances s T))"
  by (simp add: global_remove_def erase_instance_def global_erase_item_def dispose_def invoke_def
      Let_def split: option.splits)

definition global_remove_calling ::
  "global_registry code \<Rightarrow> class_id \<Rightarrow> addr \<Rightarrow> callback option \<Rightarrow> global_registry
   \<Rightarrow> global_registry" where
  "global_remove_calling code T object destroy s =
     (let s1 = erase_instance T object s in
      case map_of (global_registry_objects s1) object of
        None \<Rightarrow> s1
      | Some h \<Rightarrow> call code destroy T object (global_erase_item object (dispose h s1)))"

text \<open>
  The loop \<open>while (!instances().empty())\<close> that calls \<open>remove\<close> on the first element of
  \<open>instances()\<close>; each test reads the instance set as the last call of \<open>destroy\<close> left it.
\<close>

partial_function (option) global_remove_all ::
  "global_registry code \<Rightarrow> class_id \<Rightarrow> callback option \<Rightarrow> global_registry
   \<Rightarrow> global_registry option" where
  "global_remove_all code T destroy s =
     (if instances s T = [] then Some s
      else global_remove_all code T destroy
             (global_remove_calling code T (hd (instances s T)) destroy s))"

section \<open>Sequences of registry calls\<close>

text \<open>
  In a sequence of calls the destroy functions leave the registry alone. \<open>remove_all\<close>
  then always returns (\<open>remove_all_result\<close> and \<open>global_remove_all_result\<close> below), so the
  case \<open>None\<close> does not arise.
\<close>

datatype op =
    Add class_id addr handle
  | Remove class_id addr "callback option"
  | RemoveAll class_id "callback option"
  | Find class_id addr

fun exec :: "op \<Rightarrow> registry \<Rightarrow> registry" where
  "exec (Add T object v) s = registry_add T object v s"
| "exec (Remove T object destroy) s = registry_remove T object destroy s"
| "exec (RemoveAll T destroy) s =
     (case registry_remove_all quiet T destroy s of Some s' \<Rightarrow> s' | None \<Rightarrow> s)"
| "exec (Find T native) s = s"

text \<open>What a call returns to its caller: \<open>find\<close> returns a handle, the others are \<open>void\<close>.\<close>

fun returned :: "op \<Rightarrow> registry \<Rightarrow> handle list" where
  "returned (Find T native) s = [registry_find T native s]"
| "returned _ s = []"

fun run :: "op list \<Rightarrow> registry \<Rightarrow> handle list \<times> registry" where
  "run [] s = ([], s)"
| "run (c # cs) s = (let (out, s') = run cs (exec c s) in (returned c s @ out, s'))"

fun global_exec :: "op \<Rightarrow> global_registry \<Rightarrow> global_registry" where
  "global_exec (Add T object v) s = global_add T object v s"
| "global_exec (Remove T object destroy) s = global_remove T object destroy s"
| "global_exec (RemoveAll T destroy) s =
     (case global_remove_all quiet T destroy s of Some s' \<Rightarrow> s' | None \<Rightarrow> s)"
| "global_exec (Find T native) s = s"

fun global_returned :: "op \<Rightarrow> global_registry \<Rightarrow> handle list" where
  "global_returned (Find T native) s = [global_find T native s]"
| "global_returned _ s = []"

fun global_run :: "op list \<Rightarrow> global_registry \<Rightarrow> handle list \<times> global_registry" where
  "global_run [] s = ([], s)"
| "global_run (c # cs) s =
     (let (out, s') = global_run cs (global_exec c s) in (global_returned c s @ out, s'))"

section \<open>Conversion to script values\<close>

text \<open>
  The overloads of \<open>to_v8\<close> are told apart by a suffix. The runtime's constructors are
  modelled by what they build: \<open>v8::String::New(data)\<close> reads the characters up to the
  terminating NUL, \<open>v8::String::New(data, length)\<close> reads \<open>length\<close> characters and falls
  back to the first form for \<open>length = -1\<close>.
\<close>

definition String_New :: "char list \<Rightarrow> handle" where
  "String_New data = Str (takeWhile (\<lambda>c. c \<noteq> CHR 0x00) data)"

definition String_New_length :: "char list \<Rightarrow> int \<Rightarrow> handle" where
  "String_New_length data len = (if len = - 1 then String_New data else Str (take (nat len) data))"

text \<open>\<open>(int)n\<close> for a \<open>size_t\<close> or \<open>ptrdiff_t\<close> value \<open>n\<close>: the low 32 bits, read as signed.\<close>

definition to_int :: "nat \<Rightarrow> int" where
  "to_int n = sint (word_of_nat n :: 32 word)"

definition to_v8_string :: "string \<Rightarrow> handle" where
  "to_v8_string src = String_New_length src (to_int (length src))"

text \<open>
  A \<open>char const*\<close> is \<open>None\<close> when null and otherwise \<open>Some\<close> of the characters stored from
  the address on; the literal \<open>""\<close> is a lone NUL.
\<close>

definition to_v8_cstr :: "char list option \<Rightarrow> handle" where
  "to_v8_cstr src = String_New (case src of Some p \<Rightarrow> p | None \<Rightarrow> [CHR 0x00])"

definition to_v8_int32 :: "32 word \<Rightarrow> handle" where
  "to_v8_int32 src = Int32 src"

text \<open>\<open>to_v8(T const*)\<close> for a class type \<open>T\<close>, in the default and in the global build.\<close>

definition to_v8_class_ptr :: "class_id \<Rightarrow> addr \<Rightarrow> registry \<Rightarrow> handle" where
  "to_v8_class_ptr T src s = registry_find T src s"

definition global_to_v8_class_ptr :: "class_id \<Rightarrow> addr \<Rightarrow> global_registry \<Rightarrow> handle" where
  "global_to_v8_class_ptr T src s = global_find T src s"

text \<open>
  \<open>v8::Array::New(length)\<close> makes an array of \<open>length\<close> unwritten slots (none for a
  negative \<open>length\<close>); \<open>Set(index, value)\<close> writes the slot and, as script arrays do, grows
  the array when the index is past its end.
\<close>

definition Array_New :: "int \<Rightarrow> handle list" where
  "Array_New len = replicate (nat len) Undefined"

definition Array_Set :: "handle list \<Rightarrow> 32 word \<Rightarrow> handle \<Rightarrow> handle list" where
  "Array_Set a idx v =
     (if unat idx < length a then a[unat idx := v]
      else a @ replicate (unat idx - length a) Undefined @ [v])"

text \<open>
  The loop \<open>for (uint32_t idx = 0; begin != end; ++begin, ++idx)\<close>: the range is the list
  of the elements still to visit, \<open>conv\<close> the overload of \<open>to_v8\<close> chosen for the element
  type. The function gives the successive values of \<open>result\<close>, one for each test of
  \<open>begin != end\<close>: the first is the array the loop starts from, the last the array it
  leaves.
\<close>

fun to_v8_elements ::
  "('a \<Rightarrow> handle) \<Rightarrow> 'a list \<Rightarrow> 32 word \<Rightarrow> handle list \<Rightarrow> handle list list" where
  "to_v8_elements conv [] idx result = [result]"
| "to_v8_elements conv (x # xs) idx result =
     result # to_v8_elements conv xs (idx + 1) (Array_Set result idx (conv x))"

text \<open>
  \<open>to_v8(begin, end)\<close> for random-access iterators: \<open>result\<close> starts as
  \<open>v8::Array::New(end - begin)\<close>, and the function returns its last value.
\<close>

definition to_v8_range_results :: "('a \<Rightarrow> handle) \<Rightarrow> 'a list \<Rightarrow> handle list list" where
  "to_v8_range_results conv src =
     to_v8_elements conv src 0 (Array_New (to_int (length src)))"

definition to_v8_range :: "('a \<Rightarrow> handle) \<Rightarrow> 'a list \<Rightarrow> handle" where
  "to_v8_range conv src = Array (last (to_v8_range_results conv src))"

definition to_v8_vector :: "('a \<Rightarrow> handle) \<Rightarrow> 'a list \<Rightarrow> handle" where
  "to_v8_vector conv src = to_v8_range conv src"

text \<open>
  \<open>v8::Object::New()\<close> has no properties; \<open>Set(key, value)\<close> overwrites the property
  \<open>key\<close> or adds it. A property is identified by the converted key.
\<close>

fun Object_Set :: "(handle \<times> handle) list \<Rightarrow> handle \<Rightarrow> handle \<Rightarrow> (handle \<times> handle) list" where
  "Object_Set [] k v = [(k, v)]"
| "Object_Set (p # ps) k v = (if fst p = k then (k, v) # ps else p # Object_Set ps k v)"

text \<open>
  A \<open>std::map\<close> is the list of its entries in iteration order, which is the order of the
  keys.
\<close>

fun to_v8_properties ::
  "('k \<Rightarrow> handle) \<Rightarrow> ('v \<Rightarrow> handle) \<Rightarrow> ('k \<times> 'v) list \<Rightarrow> (handle \<times> handle) list \<Rightarrow> (handle \<times> handle) list" where
  "to_v8_properties kconv vconv [] result = result"
| "to_v8_properties kconv vconv (it # rest) result =
     to_v8_properties kconv vconv rest (Object_Set result (kconv (fst it)) (vconv (snd it)))"

definition to_v8_map :: "('k \<Rightarrow> handle) \<Rightarrow> ('v \<Rightarrow> handle) \<Rightarrow> ('k \<times> 'v) list \<Rightarrow> handle" where
  "to_v8_map kconv vconv src = Object (to_v8_properties kconv vconv src [])"

section \<open>Vocabulary of the statements\<close>

text \<open>
  What one removal of a found entry does outside the registry: the handle is disposed,
  then the callback, if there is one, is called on the object.
\<close>

definition teardown :: "callback option \<Rightarrow> class_id \<Rightarrow> addr \<times> handle \<Rightarrow> event list" where
  "teardown destroy T p =
     Dispose (snd p) # (case destroy of None \<Rightarrow> [] | Some f \<Rightarrow> [Destroy f T (fst p)])"

text \<open>The same for an instance of \<open>T\<close> looked up in the global table \<open>tbl\<close>.\<close>

definition global_teardown :: "callback option \<Rightarrow> class_id \<Rightarrow> objects \<Rightarrow> addr \<Rightarrow> event list" where
  "global_teardown destroy T tbl object =
     (case map_of tbl object of None \<Rightarrow> [] | Some h \<Rightarrow> teardown destroy T (object, h))"

definition erase_all :: "addr list \<Rightarrow> objects \<Rightarrow> objects" where
  "erase_all os tbl = foldl (\<lambda>t object. map_erase object t) tbl os"




definition add_again :: "registry code" where
  "add_again f object s = registry_add 0 object (Persistent 7) s"

text \<open>
  The specification's notion of the objects that are currently registered, written from its
  words: \<open>add\<close> registers the object, \<open>remove\<close> unregisters it, \<open>remove_all\<close> unregisters
  every object of the class, and nothing else changes the set.
\<close>

fun spec_step :: "op \<Rightarrow> (class_id \<Rightarrow> addr set) \<Rightarrow> (class_id \<Rightarrow> addr set)" where
  "spec_step (Add T object v) R = R(T := insert object (R T))"
| "spec_step (Remove T object destroy) R = R(T := R T - {object})"
| "spec_step (RemoveAll T destroy) R = R(T := {})"
| "spec_step (Find T native) R = R"

fun spec_registered_from :: "op list \<Rightarrow> (class_id \<Rightarrow> addr set) \<Rightarrow> (class_id \<Rightarrow> addr set)" where
  "spec_registered_from [] R = R"
| "spec_registered_from (c # cs) R = spec_registered_from cs (spec_step c R)"

definition spec_registered :: "op list \<Rightarrow> class_id \<Rightarrow> addr set" where
  "spec_registered ops = spec_registered_from ops (\<lambda>T. {})"

text \<open>The keys of the table of \<open>T\<close>, and the uniqueness of keys that a hash map has.\<close>

definition keys :: "registry \<Rightarrow> class_id \<Rightarrow> addr set" where
  "keys s T = fst ` set (items s T)"

definition unique_keys :: "registry \<Rightarrow> bool" where
  "unique_keys s = (\<forall>T. distinct (map fst (items s T)))"

text \<open>
  The same notion for the build with the global table, where an address is registered when
  the one table has an entry for it, whatever the class; the second component is the set
  of instances of each class, which scopes \<open>remove_all\<close>.
\<close>

fun spec_global_step ::
  "op \<Rightarrow> addr set \<times> (class_id \<Rightarrow> addr set) \<Rightarrow> addr set \<times> (class_id \<Rightarrow> addr set)" where
  "spec_global_step (Add T object v) (R, I) = (insert object R, I(T := insert object (I T)))"
| "spec_global_step (Remove T object destroy) (R, I) = (R - {object}, I(T := I T - {object}))"
| "spec_global_step (RemoveAll T destroy) (R, I) = (R - I T, I(T := {}))"
| "spec_global_step (Find T native) (R, I) = (R, I)"

fun spec_global_from ::
  "op list \<Rightarrow> addr set \<times> (class_id \<Rightarrow> addr set) \<Rightarrow> addr set \<times> (class_id \<Rightarrow> addr set)" where
  "spec_global_from [] RI = RI"
| "spec_global_from (c # cs) RI = spec_global_from cs (spec_global_step c RI)"

definition spec_global_registered :: "op list \<Rightarrow> addr set" where
  "spec_global_registered ops = fst (spec_global_from ops ({}, \<lambda>T. {}))"

definition global_keys :: "global_registry \<Rightarrow> addr set \<times> (class_id \<Rightarrow> addr set)" where
  "global_keys g = (fst ` set (global_registry_objects g), \<lambda>T. set (instances g T))"

definition global_unique :: "global_registry \<Rightarrow> bool" where
  "global_unique g \<longleftrightarrow>
     distinct (map fst (global_registry_objects g)) \<and> (\<forall>T. distinct (instances g T))"

text \<open>The sequences of calls that never register an empty handle.\<close>

fun adds_empty :: "op \<Rightarrow> bool" where
  "adds_empty (Add T object v) = (v = Empty)"
| "adds_empty _ = False"

definition no_empty_add :: "op list \<Rightarrow> bool" where
  "no_empty_add ops = list_all (\<lambda>c. \<not> adds_empty c) ops"

text \<open>
  A sequence of \<open>add\<close>, \<open>remove\<close> and \<open>find\<close> calls in which no call is made for an
  address while the address is registered under another class. \<open>owner\<close> maps each
  registered address to the class it was registered under.
\<close>

fun exclusive :: "op list \<Rightarrow> (addr \<rightharpoonup> class_id) \<Rightarrow> bool" where
  "exclusive [] owner = True"
| "exclusive (Add T object v # cs) owner =
     ((owner object = None \<or> owner object = Some T) \<and> exclusive cs (owner(object \<mapsto> T)))"
| "exclusive (Remove T object destroy # cs) owner =
     ((owner object = None \<or> owner object = Some T) \<and> exclusive cs (owner(object := None)))"
| "exclusive (RemoveAll T destroy # cs) owner = False"
| "exclusive (Find T native # cs) owner =
     ((owner native = None \<or> owner native = Some T) \<and> exclusive cs owner)"

text \<open>The simulation between the two builds used to compare them.\<close>

definition related :: "(addr \<rightharpoonup> class_id) \<Rightarrow> registry \<Rightarrow> global_registry \<Rightarrow> bool" where
  "related owner p g \<longleftrightarrow>
     trace p = trace g \<and>
     distinct (map fst (global_registry_objects g)) \<and>
     (\<forall>T. distinct (map fst (items p T))) \<and>
     (\<forall>T object. map_of (items p T) object =
        (if owner object = Some T then map_of (global_registry_objects g) object else None)) \<and>
     (\<forall>object. owner object = None \<longrightarrow> map_of (global_registry_objects g) object = None)"

text \<open>Reading a property of an object value, and the converted entries of a \<open>std::map\<close>.\<close>

fun Object_Get :: "handle \<Rightarrow> handle \<Rightarrow> handle option" where
  "Object_Get (Object ps) k = map_of ps k"
| "Object_Get _ k = None"

definition converted ::
  "('k \<Rightarrow> handle) \<Rightarrow> ('v \<Rightarrow> handle) \<Rightarrow> ('k \<times> 'v) list \<Rightarrow> (handle \<times> handle) list" where
  "converted kconv vconv src = map (\<lambda>it. (kconv (fst it), vconv (snd it))) src"

section \<open>Facts about the tables\<close>

lemma key_of_Some: "map_of xs k = Some v \<Longrightarrow> k \<in> fst ` set xs"
  by (induction xs) (auto split: if_splits)

lemma map_of_map_insert:
  "map_of (map_insert (k, v) xs) =
     (case map_of xs k of None \<Rightarrow> (map_of xs)(k \<mapsto> v) | Some h \<Rightarrow> map_of xs)"
  by (auto simp: map_insert_def fun_eq_iff map_add_def split: option.splits)

lemma distinct_map_insert:
  "distinct (map fst xs) \<Longrightarrow> distinct (map fst (map_insert p xs))"
  by (auto simp: map_insert_def map_of_eq_None_iff split: option.splits)

lemma map_insert_present: "map_of xs k = Some h \<Longrightarrow> map_insert (k, v) xs = xs"
  by (simp add: map_insert_def)

lemma map_insert_twice: "map_insert (k, v2) (map_insert (k, v1) xs) = map_insert (k, v1) xs"
proof -
  obtain h where "map_of (map_insert (k, v1) xs) k = Some h"
    by (cases "map_of xs k") (simp_all add: map_of_map_insert)
  then show ?thesis by (rule map_insert_present)
qed

lemma set_map_insert: "fst ` set (map_insert (k, v) xs) = insert k (fst ` set xs)"
  by (auto simp: map_insert_def split: option.splits dest: key_of_Some)

lemma set_insert_twice: "set_insert k (set_insert k xs) = set_insert k xs"
  by (simp add: set_insert_def)

lemma map_of_map_erase_other: "k' \<noteq> k \<Longrightarrow> map_of (map_erase k xs) k' = map_of xs k'"
  by (induction xs) auto

lemma map_of_map_erase_same: "distinct (map fst xs) \<Longrightarrow> map_of (map_erase k xs) k = None"
  by (induction xs) (auto simp: map_of_eq_None_iff)

lemma map_of_map_erase:
  "distinct (map fst xs) \<Longrightarrow> map_of (map_erase k xs) = (map_of xs)(k := None)"
  by (simp add: fun_eq_iff map_of_map_erase_other map_of_map_erase_same)

lemma set_map_erase_subset: "set (map_erase k xs) \<subseteq> set xs"
  by (induction xs) auto

lemma distinct_map_erase: "distinct (map fst xs) \<Longrightarrow> distinct (map fst (map_erase k xs))"
proof (induction xs)
  case Nil
  then show ?case by simp
next
  case (Cons p xs)
  have "fst p \<notin> fst ` set (map_erase k xs)"
    using Cons.prems set_map_erase_subset [of k xs] by auto
  then show ?case using Cons by simp
qed

lemma map_erase_absent: "map_of xs k = None \<Longrightarrow> map_erase k xs = xs"
  by (induction xs) (auto split: if_splits)

lemma keys_map_erase:
  assumes "distinct (map fst xs)"
  shows "fst ` set (map_erase k xs) = fst ` set xs - {k}"
proof -
  have "dom (map_of (map_erase k xs)) = dom ((map_of xs)(k := None))"
    using assms by (simp add: map_of_map_erase)
  then show ?thesis by (simp add: dom_map_of_conv_image_fst)
qed

lemma set_erase_absent: "x \<notin> set xs \<Longrightarrow> set_erase x xs = xs"
  by (induction xs) (simp_all add: set_erase_def)

lemma set_erase_hd: "distinct (x # xs) \<Longrightarrow> set_erase x (x # xs) = xs"
  using set_erase_absent [of x xs] by (simp add: set_erase_def)

section \<open>Facts about the registry operations\<close>

lemma trace_invoke:
  "trace (invoke destroy T object s) =
     trace s @ (case destroy of None \<Rightarrow> [] | Some f \<Rightarrow> [Destroy f T object])"
  by (simp add: invoke_def split: option.splits)

lemma items_invoke: "items (invoke destroy T object s) = items s"
  by (simp add: invoke_def split: option.splits)

lemma items_remove:
  "items (registry_remove T object destroy s) =
     (case map_of (items s T) object of None \<Rightarrow> items s
      | Some h \<Rightarrow> (items s)(T := map_erase object (items s T)))"
  by (simp add: registry_remove_def items_invoke erase_item_def dispose_def split: option.splits)

lemma trace_remove:
  "trace (registry_remove T object destroy s) =
     (case map_of (items s T) object of None \<Rightarrow> trace s
      | Some h \<Rightarrow> trace s @ teardown destroy T (object, h))"
  by (simp add: registry_remove_def erase_item_def dispose_def invoke_def teardown_def
      split: option.splits)

lemma global_remove_eq:
  "global_registry_objects (global_remove T object destroy g) =
     (case map_of (global_registry_objects g) object of None \<Rightarrow> global_registry_objects g
      | Some h \<Rightarrow> map_erase object (global_registry_objects g))"
  "trace (global_remove T object destroy g) =
     (case map_of (global_registry_objects g) object of None \<Rightarrow> trace g
      | Some h \<Rightarrow> trace g @ teardown destroy T (object, h))"
  by (simp_all add: global_remove_def erase_instance_def global_erase_item_def dispose_def
      invoke_def teardown_def Let_def split: option.splits)

lemma call_quiet: "call quiet destroy T object s = invoke destroy T object s"
  by (simp add: call_def quiet_def invoke_def split: option.splits)

lemma remove_calling_quiet:
  "registry_remove_calling quiet T object destroy s = registry_remove T object destroy s"
  by (simp add: registry_remove_calling_def registry_remove_def call_quiet split: option.splits)

lemma global_remove_calling_quiet:
  "global_remove_calling quiet T object destroy s = global_remove T object destroy s"
  by (simp add: global_remove_calling_def global_remove_def call_quiet Let_def
      split: option.splits)

lemma remove_hd:
  assumes "items s T = p # xs"
  shows "registry_remove T (fst p) destroy s =
     s\<lparr>trace := trace s @ teardown destroy T p, items := (items s)(T := xs)\<rparr>"
  using assms
  by (cases p)
     (simp add: registry_remove_def erase_item_def dispose_def invoke_def teardown_def
        split: option.splits)

lemma remove_all_result:
  "registry_remove_all quiet T destroy s =
     Some (s\<lparr>trace := trace s @ concat (map (teardown destroy T) (items s T)),
             items := (items s)(T := [])\<rparr>)"
proof (induction "items s T" arbitrary: s)
  case Nil
  have "(items s)(T := []) = items s" using Nil by (auto simp: fun_eq_iff)
  then show ?case using Nil by (simp add: registry_remove_all.simps [of quiet T destroy s])
next
  case (Cons p xs)
  let ?s' = "registry_remove T (fst p) destroy s"
  have s': "?s' = s\<lparr>trace := trace s @ teardown destroy T p, items := (items s)(T := xs)\<rparr>"
    using Cons.hyps(2) [symmetric] by (rule remove_hd)
  have "xs = items ?s' T" by (simp add: s')
  then have "registry_remove_all quiet T destroy ?s' =
     Some (?s'\<lparr>trace := trace ?s' @ concat (map (teardown destroy T) (items ?s' T)),
         items := (items ?s')(T := [])\<rparr>)"
    by (rule Cons.hyps(1))
  moreover have "registry_remove_all quiet T destroy s = registry_remove_all quiet T destroy ?s'"
    using Cons.hyps(2) [symmetric]
    by (simp add: registry_remove_all.simps [of quiet T destroy s] remove_calling_quiet)
  ultimately show ?case
    using Cons.hyps(2) [symmetric] by (simp add: s')
qed



lemma global_remove_hd:
  assumes "instances s T = object # rest" "distinct (instances s T)"
  shows "global_remove T object destroy s =
     s\<lparr>trace := trace s @ global_teardown destroy T (global_registry_objects s) object,
       global_registry_objects := map_erase object (global_registry_objects s),
       instances := (instances s)(T := rest)\<rparr>"
  using assms set_erase_hd [of object rest]
  by (simp add: global_remove_def erase_instance_def global_erase_item_def dispose_def invoke_def
      global_teardown_def teardown_def map_erase_absent Let_def split: option.splits)

lemma global_teardown_erase:
  "object' \<noteq> object \<Longrightarrow>
   global_teardown destroy T (map_erase object tbl) object' = global_teardown destroy T tbl object'"
  by (simp add: global_teardown_def map_of_map_erase_other)

lemma global_remove_all_result:
  "distinct (instances s T) \<Longrightarrow>
   global_remove_all quiet T destroy s =
     Some (s\<lparr>trace := trace s @
         concat (map (global_teardown destroy T (global_registry_objects s)) (instances s T)),
       global_registry_objects := erase_all (instances s T) (global_registry_objects s),
       instances := (instances s)(T := [])\<rparr>)"
proof (induction "instances s T" arbitrary: s)
  case Nil
  have "(instances s)(T := []) = instances s" using Nil by (auto simp: fun_eq_iff)
  then show ?case using Nil(1) [symmetric]
    by (simp add: global_remove_all.simps [of quiet T destroy s] erase_all_def)
next
  case (Cons object rest)
  let ?s' = "global_remove T object destroy s"
  have s': "?s' =
     s\<lparr>trace := trace s @ global_teardown destroy T (global_registry_objects s) object,
       global_registry_objects := map_erase object (global_registry_objects s),
       instances := (instances s)(T := rest)\<rparr>"
    using Cons.hyps(2) [symmetric] Cons.prems by (rule global_remove_hd)
  have d: "distinct (object # rest)" using Cons.hyps(2) Cons.prems by simp
  have rest: "rest = instances ?s' T" by (simp add: s')
  moreover have "distinct (instances ?s' T)" using d by (simp add: s')
  ultimately have "global_remove_all quiet T destroy ?s' =
     Some (?s'\<lparr>trace := trace ?s' @
         concat (map (global_teardown destroy T (global_registry_objects ?s')) (instances ?s' T)),
       global_registry_objects := erase_all (instances ?s' T) (global_registry_objects ?s'),
       instances := (instances ?s')(T := [])\<rparr>)"
    by (rule Cons.hyps(1))
  moreover have "global_remove_all quiet T destroy s = global_remove_all quiet T destroy ?s'"
    using Cons.hyps(2) [symmetric]
    by (simp add: global_remove_all.simps [of quiet T destroy s] global_remove_calling_quiet)
  moreover have "map (global_teardown destroy T (map_erase object (global_registry_objects s))) rest
      = map (global_teardown destroy T (global_registry_objects s)) rest"
    using d by (intro map_cong refl global_teardown_erase) auto
  ultimately show ?case
    using Cons.hyps(2) [symmetric] by (simp add: s' erase_all_def)
qed




lemma distinct_erase_all: "distinct (map fst tbl) \<Longrightarrow> distinct (map fst (erase_all os tbl))"
  by (induction os arbitrary: tbl) (auto simp: erase_all_def distinct_map_erase)




section \<open>Registering the same object twice\<close>

text \<open>
  C3 (as amended): when \<open>add(o, h1)\<close> is followed by \<open>add(o, h2)\<close> for the same object
  \<open>o\<close>, the second call changes nothing, in the table of the class as in the global
  table: \<open>insert\<close> does not overwrite an entry. If \<open>o\<close> was not registered before the
  first call, \<open>find(o)\<close> afterwards returns \<open>h1\<close>.
\<close>

theorem add_twice_keeps_first:
  "registry_add T object h2 (registry_add T object h1 s) = registry_add T object h1 s
   \<and> (map_of (items s T) object = None \<longrightarrow>
        registry_find T object (registry_add T object h2 (registry_add T object h1 s)) = h1)
   \<and> global_add T object h2 (global_add T object h1 g) = global_add T object h1 g
   \<and> (map_of (global_registry_objects g) object = None \<longrightarrow>
        global_find T object (global_add T object h2 (global_add T object h1 g)) = h1)"
proof -
  have twice: "registry_add T object h2 (registry_add T object h1 s) = registry_add T object h1 s"
    by (simp add: registry_add_def map_insert_twice)
  have gtwice: "global_add T object h2 (global_add T object h1 g) = global_add T object h1 g"
    by (simp add: global_add_def map_insert_twice set_insert_twice)
  have "registry_find T object (registry_add T object h1 s) = h1"
    if "map_of (items s T) object = None"
    using that by (simp add: registry_add_def registry_find_def map_of_map_insert)
  moreover have "global_find T object (global_add T object h1 g) = h1"
    if "map_of (global_registry_objects g) object = None"
    using that by (simp add: global_add_def global_find_def map_of_map_insert)
  ultimately show ?thesis
    using twice gtwice by simp
qed

theorem add_twice_keeps_first_witness:
  "map_of (items init 0) 1 = None
   \<and> registry_find 0 1 (registry_add 0 1 (Persistent 2) (registry_add 0 1 (Persistent 1) init))
       = Persistent 1
   \<and> map_of (global_registry_objects global_init) 1 = None
   \<and> global_find 0 1 (global_add 0 1 (Persistent 2) (global_add 0 1 (Persistent 1) global_init))
       = Persistent 1"
  using add_twice_keeps_first [where T = 0 and object = 1 and ?h1.0 = "Persistent 1"
      and ?h2.0 = "Persistent 2" and s = init and g = global_init]
  by (simp add: init_def global_init_def registry_find_def registry_add_def global_find_def
      global_add_def map_insert_def set_insert_def)

text \<open>
  C3 as stated fails: after \<open>add(1, Persistent 1)\<close> and \<open>add(1, Persistent 2)\<close> on the empty
  registry of class \<open>0\<close>, \<open>find(1)\<close> does not return the second handle.
\<close>

theorem add_twice_counterexample:
  "registry_find 0 1 (registry_add 0 1 (Persistent 2) (registry_add 0 1 (Persistent 1) init))
     \<noteq> Persistent 2"
  by (simp add: registry_find_def registry_add_def init_def map_insert_def)

section \<open>Removing a registered object\<close>



section \<open>Removing an object that is not registered\<close>

text \<open>
  C6: for an object with no entry in the table, \<open>remove(o, destroy)\<close> returns the registry
  as it was, whatever the callback: the table has the same entries, no handle is disposed
  and the callback is not called (the trace is unchanged). With the global table, the
  table and the trace are unchanged as well.
\<close>

theorem remove_unregistered_is_noop:
  "(map_of (items s T) object = None \<longrightarrow> registry_remove T object destroy s = s)
   \<and> (map_of (global_registry_objects g) object = None \<longrightarrow>
        global_registry_objects (global_remove T object destroy g) = global_registry_objects g
        \<and> trace (global_remove T object destroy g) = trace g)"
  by (simp add: registry_remove_def global_remove_eq)

theorem remove_unregistered_is_noop_witness:
  "map_of (items (registry_add 0 1 (Persistent 5) init) 0) 2 = None
   \<and> registry_remove 0 2 (Some 9) (registry_add 0 1 (Persistent 5) init)
       = registry_add 0 1 (Persistent 5) init
   \<and> length (items (registry_remove 0 2 (Some 9) (registry_add 0 1 (Persistent 5) init)) 0) = 1
   \<and> trace (registry_remove 0 2 (Some 9) (registry_add 0 1 (Persistent 5) init)) = []
   \<and> map_of (global_registry_objects (global_add 0 1 (Persistent 5) global_init)) 2 = None
   \<and> global_registry_objects (global_remove 0 2 (Some 9) (global_add 0 1 (Persistent 5) global_init))
       = [(1, Persistent 5)]
   \<and> trace (global_remove 0 2 (Some 9) (global_add 0 1 (Persistent 5) global_init)) = []"
  using remove_unregistered_is_noop [where T = 0 and object = 2 and destroy = "Some 9"
      and s = "registry_add 0 1 (Persistent 5) init"
      and g = "global_add 0 1 (Persistent 5) global_init"]
  by (simp add: registry_add_def init_def global_add_def global_init_def map_insert_def
      set_insert_def set_erase_def registry_remove_def registry_find_def invoke_def erase_item_def
      dispose_def global_remove_def global_find_def erase_instance_def global_erase_item_def
      Let_def)



section \<open>Removing every object of a class\<close>

lemma add_again_nonempty:
  assumes "items s 0 \<noteq> []"
  shows "items (registry_remove_calling add_again 0 (fst (hd (items s 0))) (Some f) s) 0 \<noteq> []"
proof -
  obtain p xs where px: "items s 0 = p # xs" using assms by (cases "items s 0") auto
  have "map_insert (k, v) ys \<noteq> []" for k v ys
    by (cases ys) (auto simp: map_insert_def split: option.splits)
  then show ?thesis
    using px
    by (cases p) (simp add: registry_remove_calling_def call_def add_again_def registry_add_def
        erase_item_def dispose_def)
qed

lemma add_again_returns_empty:
  assumes "registry_remove_all code T destroy s = Some s'"
  shows "code = add_again \<and> T = 0 \<and> destroy = Some f \<longrightarrow> items s 0 = []"
proof (rule registry_remove_all.raw_induct
    [where P = "\<lambda>code T destroy s s'.
        code = add_again \<and> T = 0 \<and> destroy = Some f \<longrightarrow> items s 0 = []",
      OF _ assms])
  fix loop :: "registry code \<Rightarrow> class_id \<Rightarrow> callback option \<Rightarrow> registry \<Rightarrow> registry option"
  fix c T d s y
  assume IH: "\<And>c T d s y. loop c T d s = Some y \<Longrightarrow>
      c = add_again \<and> T = 0 \<and> d = Some f \<longrightarrow> items s 0 = []"
  assume step: "(if items s T = [] then Some s
      else loop c T d (registry_remove_calling c T (fst (hd (items s T))) d s)) = Some y"
  show "c = add_again \<and> T = 0 \<and> d = Some f \<longrightarrow> items s 0 = []"
  proof (intro impI, rule ccontr)
    assume eq: "c = add_again \<and> T = 0 \<and> d = Some f" and ne: "items s 0 \<noteq> []"
    let ?s1 = "registry_remove_calling add_again 0 (fst (hd (items s 0))) (Some f) s"
    from eq have c: "c = add_again" and T: "T = 0" and d: "d = Some f" by blast+
    have "items ?s1 0 \<noteq> []"
      using ne by (rule add_again_nonempty)
    moreover have "loop add_again 0 (Some f) ?s1 = Some y"
      using step ne unfolding c T d by simp
    ultimately show False using IH [of add_again 0 "Some f" ?s1 y] by blast
  qed
qed

text \<open>
  With a destroy function that registers its object again, \<open>remove_all\<close> does not return.
\<close>

lemma remove_all_add_again_never_returns:
  "registry_remove_all add_again 0 (Some 9) (registry_add 0 1 (Persistent 5) init) = None"
proof (cases "registry_remove_all add_again 0 (Some 9) (registry_add 0 1 (Persistent 5) init)")
  case None
  then show ?thesis .
next
  case (Some s')
  then have "items (registry_add 0 1 (Persistent 5) init) 0 = []"
    using add_again_returns_empty
      [of add_again 0 "Some 9" "registry_add 0 1 (Persistent 5) init" s' 9]
    by simp
  then show ?thesis by (simp add: registry_add_def init_def map_insert_def)
qed




section \<open>Lookup and the registered objects\<close>

lemma snd_run_Cons: "snd (run (c # cs) s) = snd (run cs (exec c s))"
  by (simp split: prod.splits)

lemma fst_run_Cons: "fst (run (c # cs) s) = returned c s @ fst (run cs (exec c s))"
  by (simp split: prod.splits)

lemma global_run_Cons:
  "fst (global_run (c # cs) s) = global_returned c s @ fst (global_run cs (global_exec c s))"
  "snd (global_run (c # cs) s) = snd (global_run cs (global_exec c s))"
  by (simp_all split: prod.splits)

lemmas run_Cons = fst_run_Cons snd_run_Cons global_run_Cons

lemma run_append: "snd (run (xs @ ys) s) = snd (run ys (snd (run xs s)))"
  by (induction xs arbitrary: s) (simp_all add: snd_run_Cons del: run.simps(2))

lemma spec_registered_from_snoc:
  "spec_registered_from (cs @ [c]) R = spec_step c (spec_registered_from cs R)"
  by (induction cs arbitrary: R) simp_all

lemma keys_exec: "unique_keys s \<Longrightarrow> keys (exec c s) = spec_step c (keys s)"
proof (cases c)
  case (Add T object v)
  then show ?thesis by (auto simp: keys_def registry_add_def set_map_insert fun_eq_iff)
next
  case (Remove T object destroy)
  assume u: "unique_keys s"
  show ?thesis
  proof (cases "map_of (items s T) object")
    case None
    then have "object \<notin> fst ` set (items s T)" by (simp add: map_of_eq_None_iff)
    then show ?thesis using None Remove by (auto simp: keys_def items_remove fun_eq_iff)
  next
    case (Some h)
    have "distinct (map fst (items s T))" using u by (simp add: unique_keys_def)
    then show ?thesis using Some Remove
      by (simp add: keys_def items_remove fun_eq_iff keys_map_erase)
  qed
next
  case (RemoveAll T destroy)
  then show ?thesis by (simp add: keys_def remove_all_result fun_eq_iff)
next
  case (Find T native)
  then show ?thesis by simp
qed

lemma unique_keys_exec: "unique_keys s \<Longrightarrow> unique_keys (exec c s)"
  by (cases c)
     (auto simp: unique_keys_def registry_add_def distinct_map_insert items_remove
        distinct_map_erase remove_all_result split: option.splits)

lemma run_keys:
  "unique_keys s \<Longrightarrow>
   unique_keys (snd (run ops s)) \<and> keys (snd (run ops s)) = spec_registered_from ops (keys s)"
proof (induction ops arbitrary: s)
  case Nil
  then show ?case by simp
next
  case (Cons c cs)
  have "unique_keys (exec c s)" using Cons.prems by (rule unique_keys_exec)
  from Cons.IH [OF this] show ?case
    using Cons.prems by (simp add: keys_exec snd_run_Cons del: run.simps)
qed

lemma unique_keys_init: "unique_keys init"
  by (simp add: unique_keys_def init_def)

lemma keys_init: "keys init = (\<lambda>T. {})"
  by (simp add: keys_def init_def fun_eq_iff)

lemma keys_run_init: "keys (snd (run ops init)) T = spec_registered ops T"
  using run_keys [OF unique_keys_init, of ops] by (simp add: keys_init spec_registered_def)

lemma find_in_keys: "registry_find T object s \<noteq> Empty \<Longrightarrow> object \<in> keys s T"
  by (auto simp: registry_find_def keys_def split: option.splits dest: key_of_Some)

lemma find_stored: "object \<in> keys s T \<Longrightarrow> (object, registry_find T object s) \<in> set (items s T)"
  by (auto simp: registry_find_def keys_def map_of_eq_None_iff split: option.splits
      dest: map_of_SomeD)

lemma find_unregistered: "object \<notin> keys s T \<Longrightarrow> registry_find T object s = Empty"
  by (auto simp: registry_find_def keys_def split: option.splits dest: key_of_Some)

lemma set_set_insert: "set (set_insert k xs) = insert k (set xs)"
  by (auto simp: set_insert_def)

lemma distinct_set_insert: "distinct xs \<Longrightarrow> distinct (set_insert k xs)"
  by (simp add: set_insert_def)

lemma set_set_erase: "set (set_erase k xs) = set xs - {k}"
  by (auto simp: set_erase_def)

lemma distinct_set_erase: "distinct xs \<Longrightarrow> distinct (set_erase k xs)"
  by (simp add: set_erase_def)

lemma keys_erase_all:
  "distinct (map fst tbl) \<Longrightarrow> fst ` set (erase_all os tbl) = fst ` set tbl - set os"
proof (induction os arbitrary: tbl)
  case Nil
  then show ?case by (simp add: erase_all_def)
next
  case (Cons x xs)
  have "distinct (map fst (map_erase x tbl))" using Cons.prems by (rule distinct_map_erase)
  from Cons.IH [OF this] have "fst ` set (erase_all xs (map_erase x tbl))
      = fst ` set (map_erase x tbl) - set xs" .
  then show ?case
    using Cons.prems by (auto simp: erase_all_def keys_map_erase)
qed

lemma global_remove_keys:
  "distinct (map fst (global_registry_objects g)) \<Longrightarrow>
   fst ` set (global_registry_objects (global_remove T object destroy g))
     = fst ` set (global_registry_objects g) - {object}"
proof (cases "map_of (global_registry_objects g) object")
  case None
  then have "object \<notin> fst ` set (global_registry_objects g)" by (simp add: map_of_eq_None_iff)
  then show ?thesis using None by (simp add: global_remove_eq)
next
  case (Some h)
  assume "distinct (map fst (global_registry_objects g))"
  then show ?thesis using Some by (simp add: global_remove_eq keys_map_erase)
qed

lemma global_keys_exec:
  assumes "global_unique g"
  shows "global_keys (global_exec c g) = spec_global_step c (global_keys g)"
proof (cases c)
  case (Add T object v)
  then show ?thesis
    by (auto simp: global_keys_def global_add_def set_map_insert set_set_insert fun_eq_iff)
next
  case (Remove T object destroy)
  then show ?thesis
    using assms
    by (auto simp: global_keys_def global_unique_def global_remove_keys instances_global_remove
        set_set_erase fun_eq_iff)
next
  case (RemoveAll T destroy)
  then show ?thesis
    using assms
    by (auto simp: global_keys_def global_unique_def global_remove_all_result keys_erase_all
        fun_eq_iff)
next
  case (Find T native)
  then show ?thesis by (simp add: global_keys_def)
qed

lemma global_unique_exec:
  assumes "global_unique g"
  shows "global_unique (global_exec c g)"
proof (cases c)
  case (Add T object v)
  then show ?thesis
    using assms
    by (simp add: global_unique_def global_add_def distinct_map_insert distinct_set_insert)
next
  case (Remove T object destroy)
  then show ?thesis
    using assms
    by (simp add: global_unique_def global_remove_eq instances_global_remove distinct_map_erase
        distinct_set_erase split: option.splits)
next
  case (RemoveAll T destroy)
  then show ?thesis
    using assms
    by (simp add: global_unique_def global_remove_all_result distinct_erase_all)
next
  case (Find T native)
  then show ?thesis using assms by simp
qed

lemma global_run_keys:
  "global_unique g \<Longrightarrow>
   global_unique (snd (global_run ops g)) \<and>
   global_keys (snd (global_run ops g)) = spec_global_from ops (global_keys g)"
proof (induction ops arbitrary: g)
  case Nil
  then show ?case by simp
next
  case (Cons c cs)
  have "global_unique (global_exec c g)" using Cons.prems by (rule global_unique_exec)
  from Cons.IH [OF this] show ?case
    using Cons.prems by (simp add: global_keys_exec global_run_Cons del: global_run.simps)
qed

lemma global_keys_run_init:
  "fst ` set (global_registry_objects (snd (global_run ops global_init)))
     = spec_global_registered ops"
proof -
  have "global_unique global_init" by (simp add: global_unique_def global_init_def)
  from global_run_keys [OF this, of ops]
  have "global_keys (snd (global_run ops global_init)) = spec_global_from ops (global_keys global_init)"
    by simp
  moreover have "global_keys global_init = ({}, \<lambda>T. {})"
    by (simp add: global_keys_def global_init_def)
  ultimately show ?thesis
    by (simp add: spec_global_registered_def global_keys_def prod_eq_iff)
qed

lemma spec_global_from_snoc:
  "spec_global_from (cs @ [c]) RI = spec_global_step c (spec_global_from cs RI)"
  by (induction cs arbitrary: RI) simp_all

lemma spec_global_step_Find: "spec_global_step (Find T native) RI = RI"
  by (cases RI) simp

lemma global_find_cases:
  "global_find T object g \<noteq> Empty \<Longrightarrow> object \<in> fst ` set (global_registry_objects g)"
  "object \<in> fst ` set (global_registry_objects g) \<Longrightarrow>
     (object, global_find T object g) \<in> set (global_registry_objects g)"
  "object \<notin> fst ` set (global_registry_objects g) \<Longrightarrow> global_find T object g = Empty"
  by (auto simp: global_find_def map_of_eq_None_iff split: option.splits
      dest: key_of_Some map_of_SomeD)

lemma global_find_registered:
  "(global_find T object (snd (global_run ops global_init)) \<noteq> Empty \<longrightarrow>
        object \<in> spec_global_registered ops)
   \<and> (object \<in> spec_global_registered ops \<longrightarrow>
        (object, global_find T object (snd (global_run ops global_init)))
          \<in> set (global_registry_objects (snd (global_run ops global_init))))
   \<and> (object \<notin> spec_global_registered ops \<longrightarrow>
        global_find T object (snd (global_run ops global_init)) = Empty
        \<and> global_to_v8_class_ptr T object (snd (global_run ops global_init)) = Empty)"
  using global_find_cases [where T = T and object = object
      and g = "snd (global_run ops global_init)"]
  by (simp add: global_keys_run_init global_to_v8_class_ptr_def)

lemma set_map_insert_subset: "set (map_insert p xs) \<subseteq> insert p (set xs)"
  by (auto simp: map_insert_def split: option.splits)

lemma set_erase_all_subset: "set (erase_all os tbl) \<subseteq> set tbl"
proof (induction os arbitrary: tbl)
  case Nil
  then show ?case by (simp add: erase_all_def)
next
  case (Cons x xs)
  have "set (erase_all xs (map_erase x tbl)) \<subseteq> set (map_erase x tbl)" by (rule Cons.IH)
  then show ?case using set_map_erase_subset [of x tbl] by (auto simp: erase_all_def)
qed

lemma stored_exec:
  assumes "\<not> adds_empty c" "\<And>T. Empty \<notin> snd ` set (items s T)"
  shows "Empty \<notin> snd ` set (items (exec c s) T)"
proof (cases c)
  case (Add T' object v)
  then have "v \<noteq> Empty" using assms(1) by simp
  then show ?thesis
    using Add assms(2) [of T] assms(2) [of T'] set_map_insert_subset [of "(object, v)" "items s T'"]
    by (auto simp: registry_add_def)
next
  case (Remove T' object destroy)
  then show ?thesis
    using assms(2) [of T] assms(2) [of T'] set_map_erase_subset [of object "items s T'"]
    by (auto simp: items_remove split: option.splits)
next
  case (RemoveAll T' destroy)
  then show ?thesis using assms(2) [of T] by (simp add: remove_all_result)
next
  case (Find T' native)
  then show ?thesis using assms(2) [of T] by simp
qed

lemma stored_run:
  "(\<And>T. Empty \<notin> snd ` set (items s T)) \<Longrightarrow> \<forall>c \<in> set ops. \<not> adds_empty c \<Longrightarrow>
   Empty \<notin> snd ` set (items (snd (run ops s)) T)"
proof (induction ops arbitrary: s T)
  case Nil
  then show ?case by simp
next
  case (Cons c cs)
  have "Empty \<notin> snd ` set (items (exec c s) T')" for T'
    using Cons.prems by (intro stored_exec) simp_all
  then have "Empty \<notin> snd ` set (items (snd (run cs (exec c s))) T)"
    using Cons.prems(2) by (intro Cons.IH) simp_all
  then show ?case by (simp add: snd_run_Cons del: run.simps)
qed

lemma global_stored_exec:
  assumes "\<not> adds_empty c" "global_unique g" "Empty \<notin> snd ` set (global_registry_objects g)"
  shows "Empty \<notin> snd ` set (global_registry_objects (global_exec c g))"
proof (cases c)
  case (Add T' object v)
  then have "v \<noteq> Empty" using assms(1) by simp
  then show ?thesis
    using Add assms(3) set_map_insert_subset [of "(object, v)" "global_registry_objects g"]
    by (auto simp: global_add_def)
next
  case (Remove T' object destroy)
  then show ?thesis
    using assms(3) set_map_erase_subset [of object "global_registry_objects g"]
    by (auto simp: global_remove_eq split: option.splits)
next
  case (RemoveAll T' destroy)
  then show ?thesis
    using assms(2,3) set_erase_all_subset [of "instances g T'" "global_registry_objects g"]
    by (auto simp: global_remove_all_result global_unique_def)
next
  case (Find T' native)
  then show ?thesis using assms(3) by simp
qed

lemma global_stored_run:
  "global_unique g \<Longrightarrow> Empty \<notin> snd ` set (global_registry_objects g) \<Longrightarrow>
   \<forall>c \<in> set ops. \<not> adds_empty c \<Longrightarrow>
   Empty \<notin> snd ` set (global_registry_objects (snd (global_run ops g)))"
proof (induction ops arbitrary: g)
  case Nil
  then show ?case by simp
next
  case (Cons c cs)
  have "global_unique (global_exec c g)" using Cons.prems(1) by (rule global_unique_exec)
  moreover have "Empty \<notin> snd ` set (global_registry_objects (global_exec c g))"
    using Cons.prems by (intro global_stored_exec) simp_all
  ultimately have "Empty \<notin> snd ` set (global_registry_objects (snd (global_run cs (global_exec c g))))"
    using Cons.prems(3) by (intro Cons.IH) simp_all
  then show ?case by (simp add: global_run_Cons del: global_run.simps)
qed

lemma find_nonempty_iff:
  assumes "\<forall>c \<in> set ops. \<not> adds_empty c"
  shows "(registry_find T object (snd (run ops init)) \<noteq> Empty) = (object \<in> spec_registered ops T)"
proof
  assume "registry_find T object (snd (run ops init)) \<noteq> Empty"
  then show "object \<in> spec_registered ops T"
    using find_in_keys [of T object "snd (run ops init)"] by (simp add: keys_run_init)
next
  assume "object \<in> spec_registered ops T"
  then have "(object, registry_find T object (snd (run ops init))) \<in> set (items (snd (run ops init)) T)"
    using find_stored [of object "snd (run ops init)" T] by (simp add: keys_run_init)
  moreover have "Empty \<notin> snd ` set (items (snd (run ops init)) T)"
    using assms by (intro stored_run) (simp_all add: init_def)
  ultimately show "registry_find T object (snd (run ops init)) \<noteq> Empty"
    by force
qed

lemma global_find_nonempty_iff:
  assumes "\<forall>c \<in> set ops. \<not> adds_empty c"
  shows "(global_find T object (snd (global_run ops global_init)) \<noteq> Empty)
    = (object \<in> spec_global_registered ops)"
proof
  assume "global_find T object (snd (global_run ops global_init)) \<noteq> Empty"
  then show "object \<in> spec_global_registered ops"
    using global_find_registered [of T object ops] by simp
next
  assume "object \<in> spec_global_registered ops"
  then have "(object, global_find T object (snd (global_run ops global_init)))
      \<in> set (global_registry_objects (snd (global_run ops global_init)))"
    using global_find_registered [of T object ops] by simp
  moreover have "Empty \<notin> snd ` set (global_registry_objects (snd (global_run ops global_init)))"
    using assms by (intro global_stored_run) (simp_all add: global_init_def global_unique_def)
  ultimately show "global_find T object (snd (global_run ops global_init)) \<noteq> Empty"
    by force
qed

text \<open>
  C1 (as amended): after any sequence of \<open>add\<close>, \<open>remove\<close>, \<open>remove_all\<close> and \<open>find\<close>
  calls on the empty registry, \<open>find(o)\<close> returns the handle stored in the entry of \<open>o\<close>
  when \<open>o\<close> is currently registered, and the empty handle when it is not. So a non-empty
  result means that \<open>o\<close> is registered, and for an unregistered pointer \<open>to_v8(T const*)\<close>
  yields the empty handle: there is no error. A \<open>find\<close> call changes neither the registry
  nor the set of registered objects. When no call registers an empty handle, the result
  of \<open>find(o)\<close> is non-empty if and only if \<open>o\<close> is registered. The same holds in the
  build with the global table, where registered means registered under any class.
\<close>

theorem find_iff_registered:
  "(registry_find T object (snd (run ops init)) \<noteq> Empty \<longrightarrow> object \<in> spec_registered ops T)
   \<and> (object \<in> spec_registered ops T \<longrightarrow>
        (object, registry_find T object (snd (run ops init))) \<in> set (items (snd (run ops init)) T))
   \<and> (object \<notin> spec_registered ops T \<longrightarrow>
        registry_find T object (snd (run ops init)) = Empty
        \<and> to_v8_class_ptr T object (snd (run ops init)) = Empty)
   \<and> snd (run (ops @ [Find T' native]) init) = snd (run ops init)
   \<and> spec_registered (ops @ [Find T' native]) = spec_registered ops
   \<and> (global_find T object (snd (global_run ops global_init)) \<noteq> Empty \<longrightarrow>
        object \<in> spec_global_registered ops)
   \<and> (object \<in> spec_global_registered ops \<longrightarrow>
        (object, global_find T object (snd (global_run ops global_init)))
          \<in> set (global_registry_objects (snd (global_run ops global_init))))
   \<and> (object \<notin> spec_global_registered ops \<longrightarrow>
        global_find T object (snd (global_run ops global_init)) = Empty
        \<and> global_to_v8_class_ptr T object (snd (global_run ops global_init)) = Empty)
   \<and> snd (global_run (ops @ [Find T' native]) global_init) = snd (global_run ops global_init)
   \<and> spec_global_registered (ops @ [Find T' native]) = spec_global_registered ops
   \<and> (no_empty_add ops \<longrightarrow>
        (registry_find T object (snd (run ops init)) \<noteq> Empty)
          = (object \<in> spec_registered ops T)
        \<and> (global_find T object (snd (global_run ops global_init)) \<noteq> Empty)
          = (object \<in> spec_global_registered ops))"
proof -
  have k: "keys (snd (run ops init)) T = spec_registered ops T"
    by (rule keys_run_init)
  have "spec_registered (ops @ [Find T' native]) = spec_registered ops"
    by (simp add: spec_registered_def spec_registered_from_snoc)
  then have per_class:
    "(registry_find T object (snd (run ops init)) \<noteq> Empty \<longrightarrow> object \<in> spec_registered ops T)
     \<and> (object \<in> spec_registered ops T \<longrightarrow>
        (object, registry_find T object (snd (run ops init))) \<in> set (items (snd (run ops init)) T))
     \<and> (object \<notin> spec_registered ops T \<longrightarrow>
        registry_find T object (snd (run ops init)) = Empty
        \<and> to_v8_class_ptr T object (snd (run ops init)) = Empty)
     \<and> snd (run (ops @ [Find T' native]) init) = snd (run ops init)
     \<and> spec_registered (ops @ [Find T' native]) = spec_registered ops"
    using k find_in_keys [of T object "snd (run ops init)"]
      find_stored [of object "snd (run ops init)" T]
      find_unregistered [of object "snd (run ops init)" T]
    by (simp add: run_append to_v8_class_ptr_def)
  have g_spec: "spec_global_registered (ops @ [Find T' native]) = spec_global_registered ops"
    by (simp add: spec_global_registered_def spec_global_from_snoc spec_global_step_Find)
  have "snd (global_run (xs @ [Find T' native]) g) = snd (global_run xs g)" for xs g
    by (induction xs arbitrary: g) (simp_all add: global_run_Cons del: global_run.simps(2))
  then have g_run:
    "snd (global_run (ops @ [Find T' native]) global_init) = snd (global_run ops global_init)" .
  have nonempty: "no_empty_add ops \<longrightarrow>
        (registry_find T object (snd (run ops init)) \<noteq> Empty)
          = (object \<in> spec_registered ops T)
        \<and> (global_find T object (snd (global_run ops global_init)) \<noteq> Empty)
          = (object \<in> spec_global_registered ops)"
  proof
    assume "no_empty_add ops"
    then have "\<forall>c \<in> set ops. \<not> adds_empty c"
      by (simp add: no_empty_add_def list_all_iff)
    then show "(registry_find T object (snd (run ops init)) \<noteq> Empty)
          = (object \<in> spec_registered ops T)
        \<and> (global_find T object (snd (global_run ops global_init)) \<noteq> Empty)
          = (object \<in> spec_global_registered ops)"
      by (intro conjI find_nonempty_iff global_find_nonempty_iff)
  qed
  show ?thesis
    by (intro conjI per_class [THEN conjunct1] per_class [THEN conjunct2, THEN conjunct1]
        per_class [THEN conjunct2, THEN conjunct2, THEN conjunct1]
        per_class [THEN conjunct2, THEN conjunct2, THEN conjunct2, THEN conjunct1]
        per_class [THEN conjunct2, THEN conjunct2, THEN conjunct2, THEN conjunct2]
        global_find_registered [of T object ops, THEN conjunct1]
        global_find_registered [of T object ops, THEN conjunct2, THEN conjunct1]
        global_find_registered [of T object ops, THEN conjunct2, THEN conjunct2]
        g_run g_spec nonempty)
qed

theorem find_iff_registered_witness:
  "no_empty_add [Add 0 1 (Persistent 5), Add 0 2 (Persistent 6), Remove 0 2 None]
   \<and> registry_find 0 1 (snd (run [Add 0 1 (Persistent 5), Add 0 2 (Persistent 6), Remove 0 2 None] init))
     \<noteq> Empty
   \<and> 1 \<in> spec_registered [Add 0 1 (Persistent 5), Add 0 2 (Persistent 6), Remove 0 2 None] 0
   \<and> (1, Persistent 5)
       \<in> set (items (snd (run [Add 0 1 (Persistent 5), Add 0 2 (Persistent 6), Remove 0 2 None] init)) 0)
   \<and> 2 \<notin> spec_registered [Add 0 1 (Persistent 5), Add 0 2 (Persistent 6), Remove 0 2 None] 0
   \<and> to_v8_class_ptr 0 2
        (snd (run [Add 0 1 (Persistent 5), Add 0 2 (Persistent 6), Remove 0 2 None] init)) = Empty
   \<and> global_find 0 1
        (snd (global_run [Add 0 1 (Persistent 5), Add 0 2 (Persistent 6), Remove 0 2 None] global_init))
       \<noteq> Empty
   \<and> 1 \<in> spec_global_registered [Add 0 1 (Persistent 5), Add 0 2 (Persistent 6), Remove 0 2 None]
   \<and> 2 \<notin> spec_global_registered [Add 0 1 (Persistent 5), Add 0 2 (Persistent 6), Remove 0 2 None]
   \<and> global_to_v8_class_ptr 0 2
        (snd (global_run [Add 0 1 (Persistent 5), Add 0 2 (Persistent 6), Remove 0 2 None] global_init))
       = Empty"
  using find_iff_registered [where T = 0 and object = 1
      and ops = "[Add 0 1 (Persistent 5), Add 0 2 (Persistent 6), Remove 0 2 None]"]
    find_iff_registered [where T = 0 and object = 2
      and ops = "[Add 0 1 (Persistent 5), Add 0 2 (Persistent 6), Remove 0 2 None]"]
  by (simp add: spec_registered_def registry_find_def registry_add_def registry_remove_def
      init_def map_insert_def invoke_def erase_item_def dispose_def to_v8_class_ptr_def
      spec_global_registered_def global_find_def global_add_def global_remove_def
      global_init_def set_insert_def set_erase_def erase_instance_def global_erase_item_def
      global_to_v8_class_ptr_def no_empty_add_def Let_def)

text \<open>
  C1 as stated fails: an object registered with the empty handle is currently registered,
  and \<open>find\<close> returns the empty handle for it.
\<close>

theorem find_registered_empty_counterexample:
  "1 \<in> spec_registered [Add 0 1 Empty] 0
   \<and> map_of (items (snd (run [Add 0 1 Empty] init)) 0) 1 = Some Empty
   \<and> registry_find 0 1 (snd (run [Add 0 1 Empty] init)) = Empty"
  by (simp add: spec_registered_def registry_find_def registry_add_def init_def map_insert_def)

section \<open>The two builds compared\<close>

lemma related_init: "related Map.empty init global_init"
  by (simp add: related_def init_def global_init_def)

lemma related_find:
  assumes "related owner p g" "owner native = None \<or> owner native = Some T"
  shows "registry_find T native p = global_find T native g"
  using assms by (auto simp: related_def registry_find_def global_find_def)

lemma related_add:
  assumes r: "related owner p g" and o: "owner object = None \<or> owner object = Some T"
  shows "related (owner(object \<mapsto> T)) (registry_add T object v p) (global_add T object v g)"
proof -
  have same: "map_of (items p T) object = map_of (global_registry_objects g) object"
    using r o by (auto simp: related_def)
  show ?thesis
    unfolding related_def
  proof (intro conjI allI impI)
    show "trace (registry_add T object v p) = trace (global_add T object v g)"
      using r by (simp add: related_def registry_add_def global_add_def)
    show "distinct (map fst (global_registry_objects (global_add T object v g)))"
      using r by (simp add: related_def global_add_def distinct_map_insert)
    show "distinct (map fst (items (registry_add T object v p) T'))" for T'
      using r by (simp add: related_def registry_add_def distinct_map_insert)
    show "map_of (items (registry_add T object v p) T') object' =
        (if (owner(object \<mapsto> T)) object' = Some T'
         then map_of (global_registry_objects (global_add T object v g)) object' else None)"
      for T' object'
      using r o same
      by (auto simp: related_def registry_add_def global_add_def map_of_map_insert
          split: option.splits)
    show "map_of (global_registry_objects (global_add T object v g)) object' = None"
      if "(owner(object \<mapsto> T)) object' = None" for object'
      using r that
      by (auto simp: related_def global_add_def map_of_map_insert split: option.splits if_splits)
  qed
qed

lemma related_remove:
  assumes r: "related owner p g" and o: "owner object = None \<or> owner object = Some T"
  shows "related (owner(object := None)) (registry_remove T object destroy p)
           (global_remove T object destroy g)"
proof -
  have same: "map_of (items p T) object = map_of (global_registry_objects g) object"
    using r o by (auto simp: related_def)
  have dg: "distinct (map fst (global_registry_objects g))"
    and dp: "distinct (map fst (items p T'))" for T'
    using r by (simp_all add: related_def)
  show ?thesis
    unfolding related_def
  proof (intro conjI allI impI)
    show "trace (registry_remove T object destroy p) = trace (global_remove T object destroy g)"
      using r same by (simp add: related_def trace_remove global_remove_eq split: option.splits)
    show "distinct (map fst (global_registry_objects (global_remove T object destroy g)))"
      using dg by (simp add: global_remove_eq distinct_map_erase split: option.splits)
    show "distinct (map fst (items (registry_remove T object destroy p) T'))" for T'
      using dp by (simp add: items_remove distinct_map_erase split: option.splits)
    show "map_of (items (registry_remove T object destroy p) T') object' =
        (if (owner(object := None)) object' = Some T'
         then map_of (global_registry_objects (global_remove T object destroy g)) object' else None)"
      for T' object'
    proof (cases "object' = object")
      case True
      then show ?thesis
        using r o same dp [of T]
        by (auto simp: related_def items_remove map_of_map_erase_same split: option.splits)
    next
      case False
      then show ?thesis
        using r
        by (auto simp: related_def items_remove global_remove_eq map_of_map_erase_other
            split: option.splits)
    qed
    show "map_of (global_registry_objects (global_remove T object destroy g)) object' = None"
      if "(owner(object := None)) object' = None" for object'
    proof (cases "object' = object")
      case True
      then show ?thesis
        using dg by (auto simp: global_remove_eq map_of_map_erase_same split: option.splits)
    next
      case False
      then show ?thesis
        using r that
        by (auto simp: related_def global_remove_eq map_of_map_erase_other split: option.splits)
    qed
  qed
qed

lemma related_run:
  "related owner p g \<Longrightarrow> exclusive ops owner \<Longrightarrow>
   fst (run ops p) = fst (global_run ops g) \<and>
   trace (snd (run ops p)) = trace (snd (global_run ops g))"
proof (induction ops arbitrary: owner p g)
  case Nil
  then show ?case by (simp add: related_def)
next
  case (Cons c cs)
  show ?case
  proof (cases c)
    case (Add T object v)
    then have o: "owner object = None \<or> owner object = Some T"
      and e: "exclusive cs (owner(object \<mapsto> T))"
      using Cons.prems(2) by simp_all
    from Cons.IH [OF related_add [OF Cons.prems(1) o] e, of v]
    show ?thesis using Add by (simp add: run_Cons del: run.simps global_run.simps)
  next
    case (Remove T object destroy)
    then have o: "owner object = None \<or> owner object = Some T"
      and e: "exclusive cs (owner(object := None))"
      using Cons.prems(2) by simp_all
    from Cons.IH [OF related_remove [OF Cons.prems(1) o] e, of destroy]
    show ?thesis using Remove by (simp add: run_Cons del: run.simps global_run.simps)
  next
    case (RemoveAll T destroy)
    then show ?thesis using Cons.prems(2) by simp
  next
    case (Find T native)
    then have o: "owner native = None \<or> owner native = Some T"
      and e: "exclusive cs owner"
      using Cons.prems(2) by simp_all
    from Cons.IH [OF Cons.prems(1) e] related_find [OF Cons.prems(1) o]
    show ?thesis using Find by (simp add: run_Cons del: run.simps global_run.simps)
  qed
qed

text \<open>
  C2 (as amended): started on the empty registry, the build with one table per class and
  the build with the global table return the same handles from the \<open>find\<close> calls and make
  the same \<open>Dispose\<close> and \<open>destroy\<close> calls in the same order, for every sequence of \<open>add\<close>,
  \<open>remove\<close> and \<open>find\<close> calls in which no call is made for an address while that address
  is registered under another class.
\<close>

theorem strategies_agree:
  assumes "exclusive ops Map.empty"
  shows "fst (run ops init) = fst (global_run ops global_init) \<and>
         trace (snd (run ops init)) = trace (snd (global_run ops global_init))"
  using related_run [OF related_init assms] .

theorem strategies_agree_witness:
  "exclusive [Add 0 1 (Persistent 7), Find 0 1, Add 1 2 (Persistent 8), Remove 0 1 (Some 3),
      Find 0 1, Add 1 1 (Persistent 9), Find 1 1] Map.empty
   \<and> fst (global_run [Add 0 1 (Persistent 7), Find 0 1, Add 1 2 (Persistent 8),
      Remove 0 1 (Some 3), Find 0 1, Add 1 1 (Persistent 9), Find 1 1] global_init)
      = [Persistent 7, Empty, Persistent 9]
   \<and> fst (run [Add 0 1 (Persistent 7), Find 0 1, Add 1 2 (Persistent 8),
      Remove 0 1 (Some 3), Find 0 1, Add 1 1 (Persistent 9), Find 1 1] init)
      = [Persistent 7, Empty, Persistent 9]
   \<and> trace (snd (run [Add 0 1 (Persistent 7), Find 0 1, Add 1 2 (Persistent 8),
      Remove 0 1 (Some 3), Find 0 1, Add 1 1 (Persistent 9), Find 1 1] init))
      = [Dispose (Persistent 7), Destroy 3 0 1]"
  using strategies_agree [of "[Add 0 1 (Persistent 7), Find 0 1, Add 1 2 (Persistent 8),
      Remove 0 1 (Some 3), Find 0 1, Add 1 1 (Persistent 9), Find 1 1]"]
  by (simp add: registry_add_def registry_remove_def registry_find_def init_def map_insert_def
      invoke_def erase_item_def dispose_def global_add_def global_remove_def global_find_def
      global_init_def set_insert_def set_erase_def erase_instance_def global_erase_item_def
      Let_def)

text \<open>
  C2 as stated fails when one address is used under two classes: after \<open>add\<close> for class
  \<open>0\<close> at address \<open>1\<close>, \<open>find\<close> for class \<open>1\<close> at the same address returns the empty
  handle with one table per class and the handle of the other class with the global table.
\<close>

theorem strategies_differ_counterexample:
  "fst (run [Add 0 1 (Persistent 7), Find 1 1] init) = [Empty]
   \<and> fst (global_run [Add 0 1 (Persistent 7), Find 1 1] global_init) = [Persistent 7]"
  by (simp add: registry_find_def registry_add_def init_def map_insert_def
      global_find_def global_add_def global_init_def)

section \<open>Converted sequences, maps and strings\<close>

lemma to_int_small: "n < 2 ^ 31 \<Longrightarrow> to_int n = int n"
  unfolding to_int_def
  by (simp add: signed_of_nat signed_take_bit_int_eq_self)

lemma unat_of_nat32: "n < 2 ^ 32 \<Longrightarrow> unat (of_nat n :: 32 word) = n"
  by (simp add: unat_of_nat)

lemma hd_to_v8_elements: "hd (to_v8_elements conv xs idx result) = result"
  by (cases xs) simp_all

lemma to_v8_elements_presized:
  "length a = n \<Longrightarrow> n + length xs \<le> 2 ^ 32 \<Longrightarrow>
   to_v8_elements conv xs (of_nat n) (a @ replicate (length xs) Undefined)
     = map (\<lambda>k. a @ map conv (take k xs) @ replicate (length xs - k) Undefined)
         [0..<Suc (length xs)]"
proof (induction xs arbitrary: a n)
  case Nil
  then show ?case by simp
next
  case (Cons x xs)
  have n: "n < 2 ^ 32" using Cons.prems by simp
  have written: "Array_Set (a @ replicate (length (x # xs)) Undefined) (of_nat n) (conv x)
      = (a @ [conv x]) @ replicate (length xs) Undefined"
    using Cons.prems(1) n by (simp add: Array_Set_def unat_of_nat32 list_update_append)
  have "to_v8_elements conv xs (of_nat (Suc n)) ((a @ [conv x]) @ replicate (length xs) Undefined)
      = map (\<lambda>k. (a @ [conv x]) @ map conv (take k xs) @ replicate (length xs - k) Undefined)
          [0..<Suc (length xs)]"
    using Cons.prems by (intro Cons.IH) simp_all
  then have rest: "to_v8_elements conv xs (of_nat n + 1)
        (Array_Set (a @ replicate (length (x # xs)) Undefined) (of_nat n) (conv x))
      = map (\<lambda>k. (a @ [conv x]) @ map conv (take k xs) @ replicate (length xs - k) Undefined)
          [0..<Suc (length xs)]"
    using written by (simp add: add.commute)
  have "map (\<lambda>k. a @ map conv (take k (x # xs)) @ replicate (length (x # xs) - k) Undefined)
        [0..<Suc (length (x # xs))]
      = (a @ replicate (length (x # xs)) Undefined)
        # map (\<lambda>k. (a @ [conv x]) @ map conv (take k xs) @ replicate (length xs - k) Undefined)
            [0..<Suc (length xs)]"
    by (subst map_upt_Suc) simp
  then show ?case
    using rest by (simp only: to_v8_elements.simps)
qed

lemma to_v8_range_results_presized:
  assumes "length src < 2 ^ 31"
  shows "to_v8_range_results conv src
     = map (\<lambda>k. map conv (take k src) @ replicate (length src - k) Undefined)
         [0..<Suc (length src)]"
  using assms to_v8_elements_presized [of "[]" 0 src conv]
  by (simp add: to_v8_range_results_def to_int_small Array_New_def)

lemma to_v8_range_map: "length xs < 2 ^ 31 \<Longrightarrow> to_v8_range conv xs = Array (map conv xs)"
  by (simp add: to_v8_range_def to_v8_range_results_presized last_map del: upt_Suc)

text \<open>
  C7 (as amended): for a random-access range of \<open>n\<close> elements with \<open>n < 2^31\<close> (the
  non-negative values of the \<open>int\<close> that \<open>v8::Array::New\<close> takes), \<open>result\<close> is made with
  \<open>n\<close> slots before the loop and keeps \<open>n\<close> slots throughout: after \<open>k\<close> steps its first
  \<open>k\<close> slots hold the conversions of the first \<open>k\<close> elements and the others are unwritten.
  \<open>to_v8(begin, end)\<close> returns the array of length \<open>n\<close> whose slot \<open>i\<close> holds the conversion
  of the \<open>i\<close>-th element, and \<open>to_v8(std::vector<T> const&)\<close> returns the same. The vector
  \<open>[1, 2, 3]\<close> of \<open>int32_t\<close> gives the array of the converted \<open>1\<close>, \<open>2\<close>, \<open>3\<close>.
\<close>

theorem to_v8_range_elements:
  assumes "length src < 2 ^ 31"
  shows "hd (to_v8_range_results conv src) = replicate (length src) Undefined
    \<and> to_v8_range_results conv src
        = map (\<lambda>k. map conv (take k src) @ replicate (length src - k) Undefined)
            [0..<Suc (length src)]
    \<and> (\<forall>a \<in> set (to_v8_range_results conv src). length a = length src)
    \<and> to_v8_range conv src = Array (map conv src)
    \<and> to_v8_vector conv src = Array (map conv src)
    \<and> to_v8_vector to_v8_int32 [1, 2, 3] = Array [Int32 1, Int32 2, Int32 3]"
proof (intro conjI)
  show "hd (to_v8_range_results conv src) = replicate (length src) Undefined"
    using assms
    by (simp add: to_v8_range_results_def hd_to_v8_elements to_int_small Array_New_def)
  show r: "to_v8_range_results conv src
      = map (\<lambda>k. map conv (take k src) @ replicate (length src - k) Undefined)
          [0..<Suc (length src)]"
    using assms by (rule to_v8_range_results_presized)
  show "\<forall>a \<in> set (to_v8_range_results conv src). length a = length src"
    unfolding r by (auto simp del: upt_Suc)
  show "to_v8_range conv src = Array (map conv src)"
    using assms by (rule to_v8_range_map)
  then show "to_v8_vector conv src = Array (map conv src)"
    by (simp add: to_v8_vector_def)
  show "to_v8_vector to_v8_int32 [1, 2, 3] = Array [Int32 1, Int32 2, Int32 3]"
    by (simp add: to_v8_vector_def to_v8_range_map to_v8_int32_def)
qed

theorem to_v8_range_elements_witness:
  "length [7, 8, 9 :: 32 word] < 2 ^ 31
   \<and> hd (to_v8_range_results to_v8_int32 [7, 8, 9]) = [Undefined, Undefined, Undefined]
   \<and> to_v8_range to_v8_int32 [7, 8, 9] = Array [Int32 7, Int32 8, Int32 9]
   \<and> to_v8_vector to_v8_int32 [7, 8, 9] = Array [Int32 7, Int32 8, Int32 9]"
  using to_v8_range_elements [of "[7, 8, 9 :: 32 word]" to_v8_int32]
  by (simp add: to_v8_int32_def numeral_3_eq_3)

text \<open>
  C7 as stated fails for a range of \<open>2^31\<close> elements: \<open>end - begin\<close> does not fit the \<open>int\<close>
  that \<open>v8::Array::New\<close> takes, and \<open>result\<close> is made with no slot at all.
\<close>

theorem to_v8_range_not_presized_counterexample:
  "length (replicate (2 ^ 31) (0 :: 32 word)) = 2 ^ 31
   \<and> hd (to_v8_range_results to_v8_int32 (replicate (2 ^ 31) 0)) = []"
  by (simp add: to_v8_range_results_def hd_to_v8_elements to_int_def Array_New_def)

lemma map_of_Object_Set: "map_of (Object_Set ps k v) = (map_of ps)(k \<mapsto> v)"
  by (induction ps) (auto simp: fun_eq_iff)

lemma map_of_to_v8_properties:
  "map_of (to_v8_properties kconv vconv src result) =
   map_of result ++ map_of (rev (converted kconv vconv src))"
proof (induction src arbitrary: result)
  case Nil
  then show ?case by (simp add: converted_def)
next
  case (Cons it rest)
  show ?case
    by (simp add: Cons.IH map_of_Object_Set converted_def fun_eq_iff map_add_def
        split: option.splits)
qed

lemma Object_Get_to_v8_map:
  "Object_Get (to_v8_map kconv vconv src) = map_of (rev (converted kconv vconv src))"
  by (simp add: to_v8_map_def map_of_to_v8_properties fun_eq_iff)

text \<open>
  C8: \<open>to_v8\<close> of a \<open>std::map\<close> starts from a new object and sets, for each entry in
  iteration order, the property \<open>convert(key)\<close> to \<open>convert(value)\<close>. So a property of the
  result has the converted value of the last entry whose key converts to it, and the
  result has no other property: when the keys of the entries after \<open>(k, v)\<close> all convert to
  something else than \<open>k\<close> does, the property \<open>convert(k)\<close> is \<open>convert(v)\<close>, whatever the
  entries before. The map \<open>{"a": 1, "b": 2}\<close> gives the object with exactly the properties
  \<open>a -> 1\<close> and \<open>b -> 2\<close>.
\<close>

theorem to_v8_map_properties:
  "Object_Get (to_v8_map kconv vconv src) = map_of (rev (converted kconv vconv src))
   \<and> (kconv k \<notin> kconv ` fst ` set post \<longrightarrow>
        Object_Get (to_v8_map kconv vconv (pre @ (k, v) # post)) (kconv k) = Some (vconv v))
   \<and> (p \<notin> kconv ` fst ` set src \<longrightarrow> Object_Get (to_v8_map kconv vconv src) p = None)
   \<and> to_v8_map to_v8_string to_v8_int32 [(''a'', 1), (''b'', 2)]
       = Object [(Str ''a'', Int32 1), (Str ''b'', Int32 2)]"
proof (intro conjI impI)
  show "Object_Get (to_v8_map kconv vconv src) = map_of (rev (converted kconv vconv src))"
    by (rule Object_Get_to_v8_map)
  show "Object_Get (to_v8_map kconv vconv (pre @ (k, v) # post)) (kconv k) = Some (vconv v)"
    if "kconv k \<notin> kconv ` fst ` set post"
  proof -
    have "map_of (rev (converted kconv vconv post)) (kconv k) = None"
      using that by (force simp: converted_def map_of_eq_None_iff image_iff)
    then show ?thesis
      by (simp add: Object_Get_to_v8_map converted_def map_add_def)
  qed
  show "Object_Get (to_v8_map kconv vconv src) p = None" if "p \<notin> kconv ` fst ` set src"
    using that by (force simp: Object_Get_to_v8_map converted_def map_of_eq_None_iff image_iff)
  show "to_v8_map to_v8_string to_v8_int32 [(''a'', 1), (''b'', 2)]
      = Object [(Str ''a'', Int32 1), (Str ''b'', Int32 2)]"
    by (simp add: to_v8_map_def to_v8_string_def to_int_def String_New_length_def to_v8_int32_def)
qed

text \<open>
  Two keys of type \<open>char const*\<close> whose strings are both \<open>"a"\<close>: the later entry wins. The
  property \<open>b\<close> does not exist.
\<close>

theorem to_v8_map_properties_witness:
  "to_v8_cstr (Some [CHR ''a'', CHR 0x00, CHR ''y''])
     \<notin> to_v8_cstr ` fst ` set ([] :: (char list option \<times> 32 word) list)
   \<and> Object_Get (to_v8_map to_v8_cstr to_v8_int32
        [(Some [CHR ''a'', CHR 0x00, CHR ''x''], 1), (Some [CHR ''a'', CHR 0x00, CHR ''y''], 2)])
        (Str ''a'') = Some (Int32 2)
   \<and> Str ''b'' \<notin> to_v8_cstr ` fst ` set
        [(Some [CHR ''a'', CHR 0x00, CHR ''x''], 1 :: 32 word),
         (Some [CHR ''a'', CHR 0x00, CHR ''y''], 2)]
   \<and> Object_Get (to_v8_map to_v8_cstr to_v8_int32
        [(Some [CHR ''a'', CHR 0x00, CHR ''x''], 1), (Some [CHR ''a'', CHR 0x00, CHR ''y''], 2)])
        (Str ''b'') = None"
  using to_v8_map_properties [where kconv = to_v8_cstr and vconv = to_v8_int32
      and k = "Some [CHR ''a'', CHR 0x00, CHR ''y'']" and v = 2
      and pre = "[(Some [CHR ''a'', CHR 0x00, CHR ''x''], 1)]" and post = "[]"
      and p = "Str ''b''"
      and src = "[(Some [CHR ''a'', CHR 0x00, CHR ''x''], 1), (Some [CHR ''a'', CHR 0x00, CHR ''y''], 2)]"]
  by (simp add: to_v8_cstr_def String_New_def to_v8_int32_def to_v8_map_def converted_def)

text \<open>
  C9: \<open>to_v8(char const*)\<close> of the null pointer is the empty string, not a failure; of a
  non-null pointer it is the string of the characters stored from the pointer up to the
  terminating NUL.
\<close>

theorem to_v8_cstr_null_is_empty:
  "to_v8_cstr None = Str []
   \<and> to_v8_cstr (Some p) = Str (takeWhile (\<lambda>c. c \<noteq> CHR 0x00) p)
   \<and> (CHR 0x00 \<notin> set cs \<longrightarrow> to_v8_cstr (Some (cs @ CHR 0x00 # rest)) = Str cs)"
  by (auto simp: to_v8_cstr_def String_New_def takeWhile_tail takeWhile_eq_all_conv)

theorem to_v8_cstr_null_is_empty_witness:
  "CHR 0x00 \<notin> set ''abc''
   \<and> to_v8_cstr (Some (''abc'' @ CHR 0x00 # ''junk'')) = Str ''abc''"
  using to_v8_cstr_null_is_empty [where cs = "''abc''" and rest = "''junk''"]
  by simp

end
